theory Spec2Isabelle
  imports Main
begin

unbundle bit_operations_syntax

section \<open>SLIP high-level analyzer (HighLevelAnalyzer.py)\<close>

subsection \<open>Constants\<close>

text \<open>The four SLIP tokens, module-level constants of the source.\<close>

definition END :: int where
  "END = 0xC0"

definition ESC :: int where
  "ESC = 0xDB"

definition ESC_END :: int where
  "ESC_END = 0xDC"

definition ESC_ESC :: int where
  "ESC_ESC = 0xDD"

subsection \<open>Data model\<close>

text \<open>
  The values stored in the data dictionary of an output frame: the source stores a
  \<open>str\<close> (\<open>payload_hex\<close>, \<open>message\<close>) or an \<open>int\<close> (\<open>length\<close>, \<open>byte\<close>).
\<close>

datatype pyval = PStr string | PInt int

text \<open>
  An input frame of the Async Serial analyzer: \<open>frame.type\<close>, \<open>frame.data\<close> (a
  dictionary, of which only the key \<open>data\<close> is read: a sequence of Python integers),
  \<open>frame.start_time\<close> and \<open>frame.end_time\<close>. Time stamps are values of the host; their
  type is the parameter \<open>'t\<close>.
\<close>

record 't frame =
  fr_type :: string
  fr_data :: "string \<rightharpoonup> int list"
  fr_start_time :: 't
  fr_end_time :: 't

text \<open>
  \<open>AnalyzerFrame(type, start_time, end_time, data)\<close>, the output record of the host
  library, built by the two emit functions.
\<close>

record 't AnalyzerFrame =
  af_type :: string
  af_start_time :: 't
  af_end_time :: 't
  af_data :: "string \<rightharpoonup> pyval"

text \<open>
  The attributes of an \<open>Hla\<close> instance. \<open>buffer\<close> is a \<open>bytearray\<close>: every value the
  source appends to it is \<open>END\<close>, \<open>ESC\<close> or a value masked with \<open>0xFF\<close>, so
  \<open>bytearray.append\<close> never raises (lemma \<open>decode_step_buffer_bytes\<close> below).
\<close>

record 't Hla =
  escape :: bool
  buffer :: "int list"
  frame_start_time :: "'t option"

subsection \<open>Operations\<close>

text \<open>\<open>Hla.__init__\<close> calls \<open>_reset_state\<close> on the fresh object: the initial state.\<close>

definition init_state :: "'t Hla" where
  "init_state = \<lparr>escape = False, buffer = [], frame_start_time = None\<rparr>"

definition reset_state :: "'t Hla \<Rightarrow> 't Hla" where
  "reset_state self = self\<lparr>escape := False, buffer := [], frame_start_time := None\<rparr>"

text \<open>
  \<open>Hla._byte_spans\<close>: \<open>frame.data.get('data', [])\<close>, each byte with the start and end
  time of the whole frame.
\<close>

definition byte_spans :: "'t frame \<Rightarrow> (int \<times> 't \<times> 't) list" where
  "byte_spans frame =
     (let values = (case fr_data frame ''data'' of None \<Rightarrow> [] | Some v \<Rightarrow> v)
      in if values = [] then []
         else map (\<lambda>b. (b, fr_start_time frame, fr_end_time frame)) values)"

text \<open>
  \<open>f'{b:02X}'\<close> for a value \<open>b\<close> of a \<open>bytearray\<close> (0 to 255): two upper-case
  hexadecimal digits.
\<close>

definition hex_digit :: "int \<Rightarrow> char" where
  "hex_digit d = ''0123456789ABCDEF'' ! nat d"

definition format_02X :: "int \<Rightarrow> string" where
  "format_02X b = [hex_digit (b div 16), hex_digit (b mod 16)]"

text \<open>\<open>sep.join(xs)\<close> on strings.\<close>

fun join :: "string \<Rightarrow> string list \<Rightarrow> string" where
  "join sep [] = []"
| "join sep [x] = x"
| "join sep (x # y # ys) = x @ sep @ join sep (y # ys)"

text \<open>
  \<open>self.frame_start_time if self.frame_start_time else end_time\<close>: the test is Python
  truthiness, not \<open>is not None\<close>. \<open>None\<close> is falsy; whether a time stamp of the host is
  truthy is decided by the host's time type, which is not part of the repository: it
  is the parameter \<open>truthy\<close>.
\<close>

definition span_start :: "('t \<Rightarrow> bool) \<Rightarrow> 't Hla \<Rightarrow> 't \<Rightarrow> 't" where
  "span_start truthy self end_time =
     (case frame_start_time self of
        None \<Rightarrow> end_time
      | Some t \<Rightarrow> if truthy t then t else end_time)"

text \<open>\<open>Hla._emit_packet_frame\<close>: \<open>None\<close> when the buffer is empty.\<close>

definition emit_packet_frame ::
    "('t \<Rightarrow> bool) \<Rightarrow> 't Hla \<Rightarrow> 't \<Rightarrow> 't AnalyzerFrame option" where
  "emit_packet_frame truthy self end_time =
     (if buffer self = [] then None
      else
        let payload = buffer self;
            payload_hex = join '' '' (map format_02X payload)
        in Some \<lparr>af_type = ''slip_packet'',
                 af_start_time = span_start truthy self end_time,
                 af_end_time = end_time,
                 af_data = [''payload_hex'' \<mapsto> PStr payload_hex,
                            ''length'' \<mapsto> PInt (int (length payload))]\<rparr>)"

text \<open>\<open>Hla._emit_error_frame\<close>: builds the frame, then resets the state machine.\<close>

definition emit_error_frame ::
    "('t \<Rightarrow> bool) \<Rightarrow> 't Hla \<Rightarrow> 't \<Rightarrow> string \<Rightarrow> int \<Rightarrow> 't AnalyzerFrame \<times> 't Hla" where
  "emit_error_frame truthy self end_time message offending_byte =
     (let f = \<lparr>af_type = ''slip_error'',
               af_start_time = span_start truthy self end_time,
               af_end_time = end_time,
               af_data = [''message'' \<mapsto> PStr message,
                          ''byte'' \<mapsto> PInt offending_byte]\<rparr>
      in (f, reset_state self))"

text \<open>
  The body of the \<open>for\<close> loop of \<open>Hla.decode\<close>, on the pair of the instance and
  \<open>out_frames\<close>. The tests \<open>if err:\<close> and \<open>if packet:\<close> are on an \<open>AnalyzerFrame\<close>
  object or \<open>None\<close>: an object is truthy, so they are tests for \<open>None\<close>.
\<close>

definition decode_step ::
    "('t \<Rightarrow> bool) \<Rightarrow> 't Hla \<times> 't AnalyzerFrame list \<Rightarrow> int \<times> 't \<times> 't
      \<Rightarrow> 't Hla \<times> 't AnalyzerFrame list" where
  "decode_step truthy acc ev =
     (case acc of (self0, out_frames) \<Rightarrow>
      case ev of (byte_val, byte_start, byte_end) \<Rightarrow>
        let self = (if frame_start_time self0 = None \<and> byte_val \<noteq> END
                    then self0\<lparr>frame_start_time := Some byte_start\<rparr> else self0)
        in
        if escape self then
          (if byte_val = ESC_END then
             (self\<lparr>buffer := buffer self @ [END], escape := False\<rparr>, out_frames)
           else if byte_val = ESC_ESC then
             (self\<lparr>buffer := buffer self @ [ESC], escape := False\<rparr>, out_frames)
           else
             (case emit_error_frame truthy self byte_end
                     ''Invalid escape sequence after 0xDB'' byte_val of
                (err, self') \<Rightarrow> (self'\<lparr>escape := False\<rparr>, out_frames @ [err])))
        else if byte_val = ESC then
          (let self1 = self\<lparr>escape := True\<rparr>
           in (if frame_start_time self1 = None
               then self1\<lparr>frame_start_time := Some byte_start\<rparr> else self1,
               out_frames))
        else if byte_val = END then
          (let packet = emit_packet_frame truthy self byte_end
           in (reset_state self,
               case packet of None \<Rightarrow> out_frames | Some p \<Rightarrow> out_frames @ [p]))
        else
          (self\<lparr>buffer := buffer self @ [byte_val AND 0xFF]\<rparr>, out_frames))"

text \<open>
  \<open>Hla.decode\<close>: the result is \<open>None\<close> or the non-empty list \<open>out_frames\<close>, together
  with the instance after the call.
\<close>

definition decode ::
    "('t \<Rightarrow> bool) \<Rightarrow> 't Hla \<Rightarrow> 't frame \<Rightarrow> 't AnalyzerFrame list option \<times> 't Hla" where
  "decode truthy self frame =
     (if fr_type frame \<noteq> ''data'' then (None, self)
      else
        case foldl (decode_step truthy) (self, []) (byte_spans frame) of
          (self', out_frames) \<Rightarrow>
            (if out_frames = [] then None else Some out_frames, self'))"

text \<open>
  The host calls \<open>decode\<close> once per input frame, in order, on the same instance.
  \<open>decode_calls\<close> is that sequence of calls: the events of all calls in order (a call
  that returns \<open>None\<close> contributes none) and the instance after the last call.
\<close>

definition events :: "'a list option \<Rightarrow> 'a list" where
  "events r = (case r of None \<Rightarrow> [] | Some fs \<Rightarrow> fs)"

fun decode_calls ::
    "('t \<Rightarrow> bool) \<Rightarrow> 't Hla \<Rightarrow> 't frame list \<Rightarrow> 't AnalyzerFrame list \<times> 't Hla" where
  "decode_calls truthy self [] = ([], self)"
| "decode_calls truthy self (frame # frames) =
     (case decode truthy self frame of
        (r, self') \<Rightarrow>
          (case decode_calls truthy self' frames of
             (rs, self'') \<Rightarrow> (events r @ rs, self'')))"

text \<open>A data frame of the Async Serial analyzer carrying the bytes \<open>bs\<close>.\<close>

definition data_frame :: "'t \<Rightarrow> 't \<Rightarrow> int list \<Rightarrow> 't frame" where
  "data_frame st et bs =
     \<lparr>fr_type = ''data'', fr_data = [''data'' \<mapsto> bs],
      fr_start_time = st, fr_end_time = et\<rparr>"

text \<open>
  The SLIP encoder is not part of the repository. \<open>slip_encode_spec\<close> follows the
  words of the specification: \<open>0xC0\<close> becomes \<open>0xDB 0xDC\<close>, \<open>0xDB\<close> becomes
  \<open>0xDB 0xDD\<close>, every other byte stays.
\<close>

fun slip_encode_spec :: "int list \<Rightarrow> int list" where
  "slip_encode_spec [] = []"
| "slip_encode_spec (b # bs) =
     (if b = 0xC0 then [0xDB, 0xDC]
      else if b = 0xDB then [0xDB, 0xDD]
      else [b]) @ slip_encode_spec bs"

text \<open>The packet frame the source builds for the payload \<open>p\<close>.\<close>

definition packet_frame :: "'t \<Rightarrow> 't \<Rightarrow> int list \<Rightarrow> 't AnalyzerFrame" where
  "packet_frame st et p =
     \<lparr>af_type = ''slip_packet'', af_start_time = st, af_end_time = et,
      af_data = [''payload_hex'' \<mapsto> PStr (join '' '' (map format_02X p)),
                 ''length'' \<mapsto> PInt (int (length p))]\<rparr>"

text \<open>The error frame the source builds for the offending byte \<open>b\<close>.\<close>

definition error_frame :: "'t \<Rightarrow> 't \<Rightarrow> int \<Rightarrow> 't AnalyzerFrame" where
  "error_frame st et b =
     \<lparr>af_type = ''slip_error'', af_start_time = st, af_end_time = et,
      af_data = [''message'' \<mapsto> PStr ''Invalid escape sequence after 0xDB'',
                 ''byte'' \<mapsto> PInt b]\<rparr>"

text \<open>The values a \<open>bytes\<close> or \<open>bytearray\<close> object holds.\<close>

definition is_byte :: "int \<Rightarrow> bool" where
  "is_byte b \<longleftrightarrow> 0 \<le> b \<and> b < 256"

text \<open>The time a packet in progress started at, once a byte at \<open>st\<close> has been consumed.\<close>

definition started :: "'t option \<Rightarrow> 't \<Rightarrow> 't option" where
  "started t st = (case t of None \<Rightarrow> Some st | Some u \<Rightarrow> Some u)"

text \<open>What an output frame says apart from its time stamps: its type and its data.\<close>

definition frame_content :: "'t AnalyzerFrame \<Rightarrow> string \<times> (string \<rightharpoonup> pyval)" where
  "frame_content f = (af_type f, af_data f)"

text \<open>A data frame given as its start time, its end time and its bytes.\<close>

definition timed_frame :: "'t \<times> 't \<times> int list \<Rightarrow> 't frame" where
  "timed_frame c = (case c of (st, et, bs) \<Rightarrow> data_frame st et bs)"

text \<open>The invariant of claim C10: a pending escape has a packet start time.\<close>

definition escape_has_start :: "'t Hla \<Rightarrow> bool" where
  "escape_has_start s \<longleftrightarrow> (escape s \<longrightarrow> frame_start_time s \<noteq> None)"

section \<open>Properties\<close>

subsection \<open>The loop body, byte by byte\<close>

lemmas tokens = END_def ESC_def ESC_END_def ESC_ESC_def

lemma reset_state_init [simp]: "reset_state (s :: 't Hla) = init_state"
  by (simp add: reset_state_def init_state_def)

lemma decode_step_out:
  "decode_step truthy (s, out) ev =
     (fst (decode_step truthy (s, []) ev), out @ snd (decode_step truthy (s, []) ev))"
  by (simp add: decode_step_def emit_error_frame_def Let_def split: prod.splits option.splits)

lemma foldl_decode_step_out:
  "foldl (decode_step truthy) (s, out) evs =
     (fst (foldl (decode_step truthy) (s, []) evs),
      out @ snd (foldl (decode_step truthy) (s, []) evs))"
proof (induction evs arbitrary: s out)
  case Nil
  show ?case by simp
next
  case (Cons ev evs)
  obtain s1 o1 where st: "decode_step truthy (s, []) ev = (s1, o1)"
    by (cases "decode_step truthy (s, []) ev")
  have a: "decode_step truthy (s, out) ev = (s1, out @ o1)"
    using decode_step_out [of truthy s out ev] st by simp
  show ?case
    using Cons.IH [of s1 "out @ o1"] Cons.IH [of s1 o1] a st by simp
qed

lemma byte_mask: "is_byte b \<Longrightarrow> b AND 0xFF = b"
proof -
  assume "is_byte b"
  then have "take_bit 8 b = b"
    by (simp add: is_byte_def take_bit_int_eq_self)
  then show ?thesis
    by (simp add: take_bit_eq_mask mask_eq_exp_minus_1)
qed

lemma decode_step_END_idle:
  "decode_step truthy (\<lparr>escape = False, buffer = [], frame_start_time = t\<rparr>, out) (END, bs, be)
     = (init_state, out)"
  by (simp add: decode_step_def emit_packet_frame_def Let_def tokens)

lemma started_idem [simp]: "started (started t st) st' = started t st"
  by (simp add: started_def split: option.splits)

lemma decode_step_data:
  "b \<noteq> END \<Longrightarrow> b \<noteq> ESC \<Longrightarrow>
   decode_step truthy (\<lparr>escape = False, buffer = buf, frame_start_time = t\<rparr>, out) (b, st, et)
     = (\<lparr>escape = False, buffer = buf @ [b AND 0xFF], frame_start_time = started t st\<rparr>, out)"
  by (simp add: decode_step_def Let_def started_def split: option.splits)

lemma decode_step_ESC:
  "decode_step truthy (\<lparr>escape = False, buffer = buf, frame_start_time = t\<rparr>, out) (ESC, st, et)
     = (\<lparr>escape = True, buffer = buf, frame_start_time = started t st\<rparr>, out)"
  by (simp add: decode_step_def Let_def started_def tokens split: option.splits)

lemma decode_step_ESC_END:
  "decode_step truthy (\<lparr>escape = True, buffer = buf, frame_start_time = t\<rparr>, out) (ESC_END, st, et)
     = (\<lparr>escape = False, buffer = buf @ [END], frame_start_time = started t st\<rparr>, out)"
  by (simp add: decode_step_def Let_def started_def tokens split: option.splits)

lemma decode_step_ESC_ESC:
  "decode_step truthy (\<lparr>escape = True, buffer = buf, frame_start_time = t\<rparr>, out) (ESC_ESC, st, et)
     = (\<lparr>escape = False, buffer = buf @ [ESC], frame_start_time = started t st\<rparr>, out)"
  by (simp add: decode_step_def Let_def started_def tokens split: option.splits)

lemma decode_step_END_packet:
  "buf \<noteq> [] \<Longrightarrow>
   decode_step truthy (\<lparr>escape = False, buffer = buf, frame_start_time = t\<rparr>, out) (END, st, et)
     = (init_state,
        out @ [packet_frame (case t of None \<Rightarrow> et | Some u \<Rightarrow> if truthy u then u else et) et buf])"
  by (simp add: decode_step_def Let_def emit_packet_frame_def packet_frame_def span_start_def
      tokens split: option.splits)

lemma foldl_encoded_payload:
  "\<forall>b \<in> set p. is_byte b \<Longrightarrow>
   foldl (decode_step truthy) (\<lparr>escape = False, buffer = buf, frame_start_time = t\<rparr>, out)
       (map (\<lambda>b. (b, st, et)) (slip_encode_spec p))
     = (\<lparr>escape = False, buffer = buf @ p,
         frame_start_time = (if p = [] then t else started t st)\<rparr>, out)"
proof (induction p arbitrary: buf t)
  case Nil
  show ?case by simp
next
  case (Cons b p)
  have bb: "is_byte b" and rest: "\<forall>b \<in> set p. is_byte b"
    using Cons.prems by simp_all
  consider (e) "b = END" | (s) "b = ESC" | (d) "b \<noteq> END" "b \<noteq> ESC"
    by blast
  then show ?case
  proof cases
    case e
    have "slip_encode_spec (b # p) = ESC # ESC_END # slip_encode_spec p"
      using e by (simp add: tokens)
    then show ?thesis
      using Cons.IH [OF rest, of "buf @ [END]" "started t st"] e
      by (simp add: decode_step_ESC decode_step_ESC_END)
  next
    case s
    have "slip_encode_spec (b # p) = ESC # ESC_ESC # slip_encode_spec p"
      using s by (simp add: tokens)
    then show ?thesis
      using Cons.IH [OF rest, of "buf @ [ESC]" "started t st"] s
      by (simp add: decode_step_ESC decode_step_ESC_ESC)
  next
    case d
    have "slip_encode_spec (b # p) = b # slip_encode_spec p"
      using d by (simp add: tokens)
    then show ?thesis
      using Cons.IH [OF rest, of "buf @ [b]" "started t st"] d bb
      by (simp add: decode_step_data byte_mask)
  qed
qed

lemma foldl_encoded_frame:
  assumes "\<forall>b \<in> set p. is_byte b" and "p \<noteq> []"
  shows "foldl (decode_step truthy) (init_state, out)
           (map (\<lambda>b. (b, st, et)) (slip_encode_spec p @ [END]))
         = (init_state, out @ [packet_frame (if truthy st then st else et) et p])"
  using assms
  by (simp add: init_state_def foldl_encoded_payload decode_step_END_packet started_def)

lemma foldl_encoded_frames:
  assumes "\<forall>p \<in> set ps. p \<noteq> [] \<and> (\<forall>b \<in> set p. is_byte b)"
  shows "foldl (decode_step truthy) (init_state, out)
           (map (\<lambda>b. (b, st, et)) (concat (map (\<lambda>p. slip_encode_spec p @ [END]) ps)))
         = (init_state, out @ map (packet_frame (if truthy st then st else et) et) ps)"
  using assms
proof (induction ps arbitrary: out)
  case Nil
  show ?case by simp
next
  case (Cons p ps)
  have a: "\<forall>b \<in> set p. is_byte b" "p \<noteq> []" and b: "\<forall>p \<in> set ps. p \<noteq> [] \<and> (\<forall>b \<in> set p. is_byte b)"
    using Cons.prems by simp_all
  let ?ev = "\<lambda>b. (b, st, et)" and ?g = "\<lambda>p. slip_encode_spec p @ [END]"
  have split: "map ?ev (concat (map ?g (p # ps)))
                 = map ?ev (slip_encode_spec p @ [END]) @ map ?ev (concat (map ?g ps))"
    by simp
  show ?case
    unfolding split foldl_append foldl_encoded_frame [OF a] Cons.IH [OF b]
    by simp
qed

lemma byte_spans_data_frame:
  "byte_spans (data_frame st et bs) = map (\<lambda>b. (b, st, et)) bs"
  by (simp add: byte_spans_def data_frame_def)

lemma decode_data_frame:
  "decode truthy s (data_frame st et bs) =
     (case foldl (decode_step truthy) (s, []) (map (\<lambda>b. (b, st, et)) bs) of
        (s', out) \<Rightarrow> (if out = [] then None else Some out, s'))"
  by (simp add: decode_def byte_spans_data_frame) (simp add: data_frame_def)

lemma no_escape_encode: "END \<notin> set p \<Longrightarrow> ESC \<notin> set p \<Longrightarrow> slip_encode_spec p = p"
  by (induction p) (auto simp: tokens)


lemma foldl_replicate_END:
  "foldl (decode_step truthy) (init_state, out) (replicate n (END, st, et))
     = (init_state, out)"
  by (induction n) (simp_all add: decode_step_END_idle [of truthy None, folded init_state_def])

lemma decode_encoded_frames:
  assumes "\<forall>p \<in> set ps. p \<noteq> [] \<and> (\<forall>b \<in> set p. is_byte b)"
  shows "decode truthy init_state
           (data_frame st et (END # concat (map (\<lambda>p. slip_encode_spec p @ [END]) ps)))
         = (if ps = [] then None
            else Some (map (packet_frame (if truthy st then st else et) et) ps), init_state)"
proof -
  have "foldl (decode_step truthy) (init_state, [])
          (map (\<lambda>b. (b, st, et)) (END # concat (map (\<lambda>p. slip_encode_spec p @ [END]) ps)))
        = (init_state, map (packet_frame (if truthy st then st else et) et) ps)"
    using foldl_encoded_frames [OF assms, of truthy "[]" st et]
    by (simp add: decode_step_END_idle [of truthy None, folded init_state_def])
  then show ?thesis
    by (simp add: decode_data_frame)
qed

lemma hex_digit_inj:
  assumes "0 \<le> a" "a < 16" "0 \<le> b" "b < 16" "hex_digit a = hex_digit b"
  shows "a = b"
proof -
  have d: "distinct ''0123456789ABCDEF''" by simp
  have "nat a < length ''0123456789ABCDEF''" "nat b < length ''0123456789ABCDEF''"
    using assms by simp_all
  then have "nat a = nat b"
    using assms(5) d unfolding hex_digit_def by (simp only: nth_eq_iff_index_eq)
  then show ?thesis using assms by simp
qed

lemma format_02X_inj:
  assumes "is_byte a" "is_byte b" "format_02X a = format_02X b"
  shows "a = b"
proof -
  have ra: "0 \<le> a div 16" "a div 16 < 16" "0 \<le> a mod 16" "a mod 16 < 16"
    using assms(1) unfolding is_byte_def by presburger+
  have rb: "0 \<le> b div 16" "b div 16 < 16" "0 \<le> b mod 16" "b mod 16 < 16"
    using assms(2) unfolding is_byte_def by presburger+
  have h: "hex_digit (a div 16) = hex_digit (b div 16)" "hex_digit (a mod 16) = hex_digit (b mod 16)"
    using assms(3) by (simp_all add: format_02X_def)
  have "a div 16 = b div 16" "a mod 16 = b mod 16"
    using hex_digit_inj [OF ra(1,2) rb(1,2) h(1)] hex_digit_inj [OF ra(3,4) rb(3,4) h(2)]
    by simp_all
  then show ?thesis
    by (metis div_mult_mod_eq)
qed

lemma join_Cons: "join sep (x # xs) = x @ (if xs = [] then [] else sep @ join sep xs)"
  by (cases xs) simp_all

lemma payload_hex_inj:
  assumes "\<forall>b \<in> set p. is_byte b" "\<forall>b \<in> set q. is_byte b"
    and "join '' '' (map format_02X p) = join '' '' (map format_02X q)"
  shows "p = q"
  using assms
proof (induction p arbitrary: q)
  case Nil
  then show ?case
    by (cases q) (simp_all add: join_Cons format_02X_def)
next
  case (Cons a p)
  show ?case
  proof (cases q)
    case Nil
    then show ?thesis using Cons.prems(3) by (simp add: join_Cons format_02X_def)
  next
    case (Cons b q')
    have eq: "format_02X a @ (if p = [] then [] else '' '' @ join '' '' (map format_02X p))
            = format_02X b @ (if q' = [] then [] else '' '' @ join '' '' (map format_02X q'))"
      using Cons.prems(3) Cons by (simp add: join_Cons)
    have len: "length (format_02X a) = length (format_02X b)"
      by (simp add: format_02X_def)
    have hd: "format_02X a = format_02X b"
      and tl: "(if p = [] then [] else '' '' @ join '' '' (map format_02X p))
             = (if q' = [] then [] else '' '' @ join '' '' (map format_02X q'))"
      using append_eq_append_conv [OF disjI1 [OF len]] eq by blast+
    have ab: "a = b"
      using format_02X_inj [OF _ _ hd] Cons.prems(1,2) Cons by simp
    have "p = q'"
    proof (cases "p = []")
      case True
      then show ?thesis using tl by (simp split: if_splits)
    next
      case False
      then have "q' \<noteq> []" using tl by (auto split: if_splits)
      then have "join '' '' (map format_02X p) = join '' '' (map format_02X q')"
        using tl False by simp
      then show ?thesis
        using Cons.IH [of q'] Cons.prems(1,2) Cons by simp
    qed
    then show ?thesis using ab Cons by simp
  qed
qed

lemma packet_frame_inj:
  assumes "\<forall>b \<in> set p. is_byte b" "\<forall>b \<in> set q. is_byte b"
    and "packet_frame st et p = packet_frame st' et' q"
  shows "p = q"
proof -
  have "af_data (packet_frame st et p) ''payload_hex'' = af_data (packet_frame st' et' q) ''payload_hex''"
    using assms(3) by simp
  then have "join '' '' (map format_02X p) = join '' '' (map format_02X q)"
    by (simp add: packet_frame_def)
  then show ?thesis
    using payload_hex_inj assms(1,2) by blast
qed

lemma is_byte_mask: "is_byte (b AND 0xFF)"
proof -
  have "b AND 0xFF = take_bit 8 b"
    by (simp add: take_bit_eq_mask mask_eq_exp_minus_1)
  then show ?thesis
    using take_bit_int_less_exp [of 8 b] take_bit_nonnegative [of 8 b]
    by (simp add: is_byte_def)
qed

lemma decode_step_buffer_bytes:
  assumes "\<forall>b \<in> set (buffer s). is_byte b"
  shows "\<forall>b \<in> set (buffer (fst (decode_step truthy (s, out) ev))). is_byte b"
  using assms
  by (cases ev)
     (auto simp: decode_step_def emit_error_frame_def Let_def init_state_def is_byte_mask
        is_byte_def tokens)

lemma decode_step_invalid_escape:
  assumes "escape s" and "b \<noteq> ESC_END" and "b \<noteq> ESC_ESC"
  shows "decode_step truthy (s, out) (b, bs, be)
         = (init_state,
            out @ [error_frame
                     (case frame_start_time s of
                        Some t \<Rightarrow> if truthy t then t else be
                      | None \<Rightarrow> if b \<noteq> END \<and> truthy bs then bs else be)
                     be b])"
  using assms
  by (simp add: decode_step_def emit_error_frame_def span_start_def error_frame_def Let_def
      init_state_def split: option.splits)

lemma decode_encoded_frame_from_init:
  assumes "p \<noteq> []" and "\<forall>b \<in> set p. is_byte b"
  shows "foldl (decode_step truthy) (init_state, out)
           (map (\<lambda>b. (b, st, et)) (END # slip_encode_spec p @ [END]))
         = (init_state, out @ [packet_frame (if truthy st then st else et) et p])"
  using foldl_encoded_frame [OF assms(2,1), of truthy out st et]
  by (simp add: decode_step_END_idle [of truthy None, folded init_state_def])

lemma foldl_decode_step_append:
  "foldl (decode_step truthy) (s, []) (xs @ ys) =
     (case foldl (decode_step truthy) (s, []) xs of
        (s1, o1) \<Rightarrow>
          (case foldl (decode_step truthy) (s1, []) ys of (s2, o2) \<Rightarrow> (s2, o1 @ o2)))"
proof -
  obtain s1 o1 where a: "foldl (decode_step truthy) (s, []) xs = (s1, o1)"
    by (cases "foldl (decode_step truthy) (s, []) xs")
  obtain s2 o2 where b: "foldl (decode_step truthy) (s1, []) ys = (s2, o2)"
    by (cases "foldl (decode_step truthy) (s1, []) ys")
  have "foldl (decode_step truthy) (s1, o1) ys = (s2, o1 @ o2)"
    using foldl_decode_step_out [of truthy s1 o1 ys] b by simp
  then show ?thesis
    using a b by simp
qed

lemma decode_data_frame_run:
  "decode truthy s (data_frame st et bs) = (r, s') \<Longrightarrow>
   foldl (decode_step truthy) (s, []) (map (\<lambda>b. (b, st, et)) bs) = (s', events r)"
  by (auto simp: decode_data_frame events_def split: prod.splits if_splits)

lemma decode_calls_data_frames:
  "decode_calls truthy s (map (data_frame st et) chunks) = (out, s') \<Longrightarrow>
   foldl (decode_step truthy) (s, []) (map (\<lambda>b. (b, st, et)) (concat chunks)) = (s', out)"
proof (induction chunks arbitrary: s out s')
  case Nil
  then show ?case by simp
next
  case (Cons c chunks)
  obtain r s1 where d: "decode truthy s (data_frame st et c) = (r, s1)"
    by (cases "decode truthy s (data_frame st et c)")
  obtain rs s2 where ds: "decode_calls truthy s1 (map (data_frame st et) chunks) = (rs, s2)"
    by (cases "decode_calls truthy s1 (map (data_frame st et) chunks)")
  have res: "out = events r @ rs" "s' = s2"
    using Cons.prems d ds by simp_all
  have one: "foldl (decode_step truthy) (s, []) (map (\<lambda>b. (b, st, et)) c) = (s1, events r)"
    by (rule decode_data_frame_run [OF d])
  have rest: "foldl (decode_step truthy) (s1, []) (map (\<lambda>b. (b, st, et)) (concat chunks))
                = (s2, rs)"
    by (rule Cons.IH [OF ds])
  have "foldl (decode_step truthy) (s, [])
          (map (\<lambda>b. (b, st, et)) c @ map (\<lambda>b. (b, st, et)) (concat chunks))
        = (s2, events r @ rs)"
    by (simp only: foldl_decode_step_append one rest prod.case)
  then show ?case
    using res by simp
qed


lemma decode_step_content:
  assumes "escape s = escape s'" and "buffer s = buffer s'"
  shows "escape (fst (decode_step truthy (s, []) (b, st, et)))
           = escape (fst (decode_step truthy (s', []) (b, st', et')))
       \<and> buffer (fst (decode_step truthy (s, []) (b, st, et)))
           = buffer (fst (decode_step truthy (s', []) (b, st', et')))
       \<and> map frame_content (snd (decode_step truthy (s, []) (b, st, et)))
           = map frame_content (snd (decode_step truthy (s', []) (b, st', et')))"
  using assms
  by (simp add: decode_step_def emit_error_frame_def emit_packet_frame_def frame_content_def
      Let_def init_state_def)

lemma foldl_decode_step_content:
  assumes "map fst evs = map fst evs'" and "escape s = escape s'" and "buffer s = buffer s'"
  shows "escape (fst (foldl (decode_step truthy) (s, []) evs))
           = escape (fst (foldl (decode_step truthy) (s', []) evs'))
       \<and> buffer (fst (foldl (decode_step truthy) (s, []) evs))
           = buffer (fst (foldl (decode_step truthy) (s', []) evs'))
       \<and> map frame_content (snd (foldl (decode_step truthy) (s, []) evs))
           = map frame_content (snd (foldl (decode_step truthy) (s', []) evs'))"
  using assms
proof (induction evs arbitrary: evs' s s')
  case Nil
  then show ?case by simp
next
  case (Cons ev evs)
  obtain ev' rest where e: "evs' = ev' # rest"
    using Cons.prems(1) by (cases evs') auto
  obtain b st et where ev: "ev = (b, st, et)" by (cases ev)
  obtain b' st' et' where ev': "ev' = (b', st', et')" by (cases ev')
  have bb: "b' = b" and tl: "map fst evs = map fst rest"
    using Cons.prems(1) e ev ev' by simp_all
  obtain s1 o1 where a: "decode_step truthy (s, []) (b, st, et) = (s1, o1)"
    by (cases "decode_step truthy (s, []) (b, st, et)")
  obtain s1' o1' where a': "decode_step truthy (s', []) (b, st', et') = (s1', o1')"
    by (cases "decode_step truthy (s', []) (b, st', et')")
  have st1: "escape s1 = escape s1'" "buffer s1 = buffer s1'"
    "map frame_content o1 = map frame_content o1'"
    using decode_step_content [OF Cons.prems(2,3), of truthy b st et st' et'] a a'
    by simp_all
  have l: "foldl (decode_step truthy) (s, []) (ev # evs)
             = (fst (foldl (decode_step truthy) (s1, []) evs),
                o1 @ snd (foldl (decode_step truthy) (s1, []) evs))"
    using foldl_decode_step_out [of truthy s1 o1 evs] a ev by simp
  have r: "foldl (decode_step truthy) (s', []) evs'
             = (fst (foldl (decode_step truthy) (s1', []) rest),
                o1' @ snd (foldl (decode_step truthy) (s1', []) rest))"
    using foldl_decode_step_out [of truthy s1' o1' rest] a' ev' e bb by simp
  show ?case
    unfolding l r using Cons.IH [OF tl st1(1,2)] st1(3) by simp
qed

lemma decode_calls_timed_frames:
  "decode_calls truthy s (map timed_frame cs) = (out, s') \<Longrightarrow>
   foldl (decode_step truthy) (s, [])
     (concat (map (\<lambda>(st, et, bs). map (\<lambda>b. (b, st, et)) bs) cs)) = (s', out)"
proof (induction cs arbitrary: s out s')
  case Nil
  then show ?case by simp
next
  case (Cons c cs)
  obtain st et bs where c: "c = (st, et, bs)" by (cases c)
  obtain r s1 where d: "decode truthy s (data_frame st et bs) = (r, s1)"
    by (cases "decode truthy s (data_frame st et bs)")
  obtain rs s2 where ds: "decode_calls truthy s1 (map timed_frame cs) = (rs, s2)"
    by (cases "decode_calls truthy s1 (map timed_frame cs)")
  have tf: "timed_frame c = data_frame st et bs"
    using c by (simp add: timed_frame_def)
  have res: "out = events r @ rs" "s' = s2"
    using Cons.prems d ds tf by simp_all
  have one: "foldl (decode_step truthy) (s, []) (map (\<lambda>b. (b, st, et)) bs) = (s1, events r)"
    by (rule decode_data_frame_run [OF d])
  have rest: "foldl (decode_step truthy) (s1, [])
                (concat (map (\<lambda>(st, et, bs). map (\<lambda>b. (b, st, et)) bs) cs)) = (s2, rs)"
    by (rule Cons.IH [OF ds])
  have "foldl (decode_step truthy) (s, [])
          (map (\<lambda>b. (b, st, et)) bs
             @ concat (map (\<lambda>(st, et, bs). map (\<lambda>b. (b, st, et)) bs) cs))
        = (s2, events r @ rs)"
    by (simp only: foldl_decode_step_append one rest prod.case)
  then show ?case
    using res c by simp
qed

lemma bytes_of_timed:
  "map fst (concat (map (\<lambda>(st, et, bs). map (\<lambda>b. (b, st, et)) bs) cs))
     = concat (map (\<lambda>c. snd (snd c)) cs)"
  by (induction cs) (auto simp: comp_def)

lemma decode_step_new_frame:
  assumes "f \<in> set (snd (decode_step truthy (s, []) (b, bs, be)))"
  shows "(af_type f = ''slip_packet'' \<and> b = END \<and> \<not> escape s \<and> buffer s \<noteq> []
            \<and> af_end_time f = be
            \<and> af_data f = [''payload_hex'' \<mapsto> PStr (join '' '' (map format_02X (buffer s))),
                           ''length'' \<mapsto> PInt (int (length (buffer s)))])
       \<or> (af_type f = ''slip_error'' \<and> escape s \<and> b \<noteq> ESC_END \<and> b \<noteq> ESC_ESC
            \<and> af_end_time f = be
            \<and> af_data f = [''message'' \<mapsto> PStr ''Invalid escape sequence after 0xDB'',
                           ''byte'' \<mapsto> PInt b])"
  using assms
  by (auto simp: decode_step_def emit_error_frame_def emit_packet_frame_def Let_def
      split: if_splits)

lemma foldl_decode_step_frames:
  assumes "\<And>s ev f. ev \<in> set evs \<Longrightarrow> f \<in> set (snd (decode_step truthy (s, []) ev)) \<Longrightarrow> Q f"
    and "f \<in> set (snd (foldl (decode_step truthy) (s, []) evs))"
  shows "Q f"
  using assms
proof (induction evs arbitrary: s)
  case Nil
  then show ?case by simp
next
  case (Cons ev evs)
  obtain s1 o1 where a: "decode_step truthy (s, []) ev = (s1, o1)"
    by (cases "decode_step truthy (s, []) ev")
  have "foldl (decode_step truthy) (s, []) (ev # evs)
          = (fst (foldl (decode_step truthy) (s1, []) evs),
             o1 @ snd (foldl (decode_step truthy) (s1, []) evs))"
    using foldl_decode_step_out [of truthy s1 o1 evs] a by simp
  then have "f \<in> set o1 \<or> f \<in> set (snd (foldl (decode_step truthy) (s1, []) evs))"
    using Cons.prems(2) by auto
  then show ?case
  proof
    assume "f \<in> set o1"
    then show ?thesis
      using Cons.prems(1) [of ev f s] a by simp
  next
    assume r: "f \<in> set (snd (foldl (decode_step truthy) (s1, []) evs))"
    show ?thesis
      by (rule Cons.IH [OF _ r]) (rule Cons.prems(1), simp_all)
  qed
qed

lemma events_decode:
  "events (fst (decode truthy s frame))
     = (if fr_type frame \<noteq> ''data'' then []
        else snd (foldl (decode_step truthy) (s, []) (byte_spans frame)))"
  by (simp add: decode_def events_def split: prod.splits)

lemma snd_decode:
  "snd (decode truthy s frame)
     = (if fr_type frame \<noteq> ''data'' then s
        else fst (foldl (decode_step truthy) (s, []) (byte_spans frame)))"
  by (simp add: decode_def split: prod.splits)

lemma decode_step_escape_has_start:
  "escape_has_start (fst (decode_step truthy (s, out) ev))"
  by (cases ev)
     (simp add: escape_has_start_def decode_step_def emit_error_frame_def Let_def
        init_state_def)

lemma foldl_escape_has_start:
  "escape_has_start s \<Longrightarrow> escape_has_start (fst (foldl (decode_step truthy) (s, out) evs))"
proof (induction evs rule: rev_induct)
  case Nil
  then show ?case by simp
next
  case (snoc ev evs)
  obtain s1 o1 where a: "foldl (decode_step truthy) (s, out) evs = (s1, o1)"
    by (cases "foldl (decode_step truthy) (s, out) evs")
  show ?case
    using decode_step_escape_has_start [of truthy s1 o1 ev] a by simp
qed

lemma decode_escape_has_start:
  "escape_has_start s \<Longrightarrow> escape_has_start (snd (decode truthy s frame))"
  by (simp add: snd_decode foldl_escape_has_start)

lemma decode_calls_escape_has_start:
  "escape_has_start s \<Longrightarrow> escape_has_start (snd (decode_calls truthy s frames))"
proof (induction frames arbitrary: s)
  case Nil
  then show ?case by simp
next
  case (Cons frame frames)
  obtain r s1 where d: "decode truthy s frame = (r, s1)"
    by (cases "decode truthy s frame")
  have "escape_has_start s1"
    using decode_escape_has_start [OF Cons.prems, of truthy frame] d by simp
  from Cons.IH [OF this]
  have "escape_has_start (snd (decode_calls truthy s1 frames))" .
  moreover obtain rs s2 where ds: "decode_calls truthy s1 frames = (rs, s2)"
    by (cases "decode_calls truthy s1 frames")
  ultimately show ?case
    using d by simp
qed

lemma fr_type_data_frame: "fr_type (data_frame st et bs) = ''data''"
  by (simp add: data_frame_def)

lemma decode_no_END_no_packet:
  assumes "END \<notin> set xs"
    and "f \<in> set (events (fst (decode truthy s (data_frame st et xs))))"
  shows "af_type f = ''slip_error''"
proof -
  have mem: "f \<in> set (snd (foldl (decode_step truthy) (s, []) (map (\<lambda>b. (b, st, et)) xs)))"
    using assms(2) by (simp add: events_decode byte_spans_data_frame fr_type_data_frame)
  show ?thesis
  proof (rule foldl_decode_step_frames [OF _ mem])
    fix s' :: "'a Hla" and ev :: "int \<times> 'a \<times> 'a" and g
    assume ev: "ev \<in> set (map (\<lambda>b. (b, st, et)) xs)"
      and g: "g \<in> set (snd (decode_step truthy (s', []) ev))"
    obtain b where b: "ev = (b, st, et)" "b \<in> set xs"
      using ev by auto
    have "b \<noteq> END"
      using b(2) assms(1) by auto
    then show "af_type g = ''slip_error''"
      using decode_step_new_frame [of g truthy s' b st et] g b(1) by auto
  qed
qed

lemma decode_pending_payload:
  assumes "\<forall>b \<in> set p. is_byte b"
  shows "decode truthy init_state (data_frame st et (END # slip_encode_spec p))
         = (None, \<lparr>escape = False, buffer = p,
                   frame_start_time = (if p = [] then None else Some st)\<rparr>)"
proof -
  have "foldl (decode_step truthy) (init_state, [])
          (map (\<lambda>b. (b, st, et)) (END # slip_encode_spec p))
        = (\<lparr>escape = False, buffer = p,
             frame_start_time = (if p = [] then None else Some st)\<rparr>, [])"
    using foldl_encoded_payload [OF assms, of truthy "[]" None "[]" st et]
    by (simp add: decode_step_END_idle [of truthy None, folded init_state_def] started_def)
       (simp add: init_state_def started_def)
  then show ?thesis
    by (simp add: decode_data_frame)
qed

subsection \<open>The claims\<close>

text \<open>
  C9. A frame whose type is not \<open>data\<close> gives no output and leaves the instance as it
  was, whatever the frame holds.
\<close>

theorem non_data_frame_ignored:
  "fr_type frame \<noteq> ''data'' \<Longrightarrow> decode truthy self frame = (None, self)"
  by (simp add: decode_def)

theorem non_data_frame_ignored_witness:
  "fr_type \<lparr>fr_type = ''error'', fr_data = [''data'' \<mapsto> [0xC0, 1, 0xC0]],
            fr_start_time = (2::nat), fr_end_time = 3\<rparr> \<noteq> ''data'' \<and>
   decode (\<lambda>t. True) \<lparr>escape = True, buffer = [7], frame_start_time = Some 1\<rparr>
     \<lparr>fr_type = ''error'', fr_data = [''data'' \<mapsto> [0xC0, 1, 0xC0]],
      fr_start_time = (2::nat), fr_end_time = 3\<rparr>
     = (None, \<lparr>escape = True, buffer = [7], frame_start_time = Some 1\<rparr>)"
  using non_data_frame_ignored
    [of "\<lparr>fr_type = ''error'', fr_data = [''data'' \<mapsto> [0xC0, 1, 0xC0]],
            fr_start_time = (2::nat), fr_end_time = 3\<rparr>" "\<lambda>t. True"
        "\<lparr>escape = True, buffer = [7], frame_start_time = Some 1\<rparr>"]
  by simp

text \<open>
  C7. Any number \<open>n\<close> of consecutive \<open>END\<close> bytes (so every \<open>n \<ge> 1\<close>) fed to the
  initial state gives no output and leaves the initial state. An \<open>END\<close> consumed with an
  empty buffer and no pending escape emits nothing and leaves \<open>frame_start_time\<close> unset,
  whatever it was.
\<close>

theorem consecutive_END_silent:
  "decode truthy init_state (data_frame st et (replicate n END)) = (None, init_state) \<and>
   decode_step truthy (\<lparr>escape = False, buffer = [], frame_start_time = t\<rparr>, out) (END, st, et)
     = (\<lparr>escape = False, buffer = [], frame_start_time = None\<rparr>, out)"
  by (simp add: decode_data_frame foldl_replicate_END
      decode_step_END_idle [unfolded init_state_def])

theorem consecutive_END_silent_witness:
  "decode (\<lambda>t. t \<noteq> 0) init_state (data_frame (4::nat) 9 [0xC0, 0xC0, 0xC0]) = (None, init_state)"
  using consecutive_END_silent [of "\<lambda>t. t \<noteq> 0" "4::nat" 9 3]
  by (simp add: END_def numeral_3_eq_3)

text \<open>
  C1, as amended. For every non-empty sequence \<open>P\<close> of bytes (0 to 255) without \<open>0xC0\<close>
  and \<open>0xDB\<close>, the chunk \<open>END + P + END\<close> fed to the initial state gives exactly one
  \<open>slip_packet\<close> frame, which carries \<open>P\<close> (as \<open>payload_hex\<close>, with \<open>length\<close>; no other
  byte sequence has that frame), and the decoder is back in its initial state. For the
  empty \<open>P\<close> the source emits nothing.
\<close>

theorem round_trip_plain:
  assumes "P \<noteq> []" and "\<forall>b \<in> set P. is_byte b \<and> b \<noteq> 0xC0 \<and> b \<noteq> 0xDB"
  shows "decode truthy init_state (data_frame st et ([END] @ P @ [END]))
           = (Some [packet_frame (if truthy st then st else et) et P], init_state)
         \<and> (\<forall>Q. (\<forall>b \<in> set Q. is_byte b) \<and>
                packet_frame (if truthy st then st else et) et Q
                  = packet_frame (if truthy st then st else et) et P \<longrightarrow> Q = P)"
proof
  have enc: "slip_encode_spec P = P"
    using assms(2) by (intro no_escape_encode) (auto simp: tokens)
  have "\<forall>p \<in> set [P]. p \<noteq> [] \<and> (\<forall>b \<in> set p. is_byte b)"
    using assms by simp
  from decode_encoded_frames [OF this, of truthy st et]
  show "decode truthy init_state (data_frame st et ([END] @ P @ [END]))
          = (Some [packet_frame (if truthy st then st else et) et P], init_state)"
    by (simp add: enc)
  have bytes: "\<forall>b \<in> set P. is_byte b"
    using assms(2) by simp
  show "\<forall>Q. (\<forall>b \<in> set Q. is_byte b) \<and>
            packet_frame (if truthy st then st else et) et Q
              = packet_frame (if truthy st then st else et) et P \<longrightarrow> Q = P"
  proof (intro allI impI)
    fix Q
    assume a: "(\<forall>b \<in> set Q. is_byte b) \<and>
               packet_frame (if truthy st then st else et) et Q
                 = packet_frame (if truthy st then st else et) et P"
    from a have q: "\<forall>b \<in> set Q. is_byte b" ..
    from a have e: "packet_frame (if truthy st then st else et) et Q
                      = packet_frame (if truthy st then st else et) et P" ..
    show "Q = P"
      by (rule packet_frame_inj [OF q bytes e])
  qed
qed

theorem round_trip_plain_witness:
  "decode (\<lambda>t. t \<noteq> 0) init_state (data_frame (4::nat) 9 [0xC0, 0x01, 0x02, 0xFF, 0xC0])
     = (Some [\<lparr>af_type = ''slip_packet'', af_start_time = 4, af_end_time = 9,
               af_data = [''payload_hex'' \<mapsto> PStr ''01 02 FF'', ''length'' \<mapsto> PInt 3]\<rparr>],
        init_state)"
  using round_trip_plain [of "[0x01, 0x02, 0xFF]" "\<lambda>t. t \<noteq> 0" "4::nat" 9, THEN conjunct1]
  by (simp add: END_def is_byte_def packet_frame_def format_02X_def hex_digit_def)

theorem round_trip_plain_counterexample:
  "decode (\<lambda>t. True) init_state (data_frame (0::nat) 1 ([END] @ [] @ [END])) = (None, init_state)"
  by (simp add: decode_data_frame decode_step_END_idle [of _ None, folded init_state_def])

text \<open>
  C2. For every payload \<open>P\<close> of bytes that is not empty (as every payload holding a
  \<open>0xC0\<close> or a \<open>0xDB\<close> is), the encoding of the specification, framed by \<open>END\<close> markers
  and fed to the initial state, gives exactly one \<open>slip_packet\<close> frame, which carries
  \<open>P\<close> itself: no other byte sequence has that frame. In the escape state the
  continuation \<open>0xDC\<close> appends \<open>0xC0\<close> to the buffer and \<open>0xDD\<close> appends \<open>0xDB\<close>, and
  both leave the escape state.
\<close>

theorem round_trip_escaped:
  assumes "P \<noteq> []" and "\<forall>b \<in> set P. is_byte b"
  shows "decode truthy init_state (data_frame st et ([END] @ slip_encode_spec P @ [END]))
           = (Some [packet_frame (if truthy st then st else et) et P], init_state)
         \<and> (\<forall>Q. (\<forall>b \<in> set Q. is_byte b) \<and>
                packet_frame (if truthy st then st else et) et Q
                  = packet_frame (if truthy st then st else et) et P \<longrightarrow> Q = P)
         \<and> decode_step truthy (\<lparr>escape = True, buffer = buf, frame_start_time = t\<rparr>, out)
               (0xDC, bs, be)
             = (\<lparr>escape = False, buffer = buf @ [0xC0], frame_start_time = started t bs\<rparr>, out)
         \<and> decode_step truthy (\<lparr>escape = True, buffer = buf, frame_start_time = t\<rparr>, out)
               (0xDD, bs, be)
             = (\<lparr>escape = False, buffer = buf @ [0xDB], frame_start_time = started t bs\<rparr>, out)"
proof (intro conjI)
  have "\<forall>p \<in> set [P]. p \<noteq> [] \<and> (\<forall>b \<in> set p. is_byte b)"
    using assms by simp
  from decode_encoded_frames [OF this, of truthy st et]
  show "decode truthy init_state (data_frame st et ([END] @ slip_encode_spec P @ [END]))
          = (Some [packet_frame (if truthy st then st else et) et P], init_state)"
    by simp
next
  show "\<forall>Q. (\<forall>b \<in> set Q. is_byte b) \<and>
            packet_frame (if truthy st then st else et) et Q
              = packet_frame (if truthy st then st else et) et P \<longrightarrow> Q = P"
  proof (intro allI impI)
    fix Q
    assume a: "(\<forall>b \<in> set Q. is_byte b) \<and>
               packet_frame (if truthy st then st else et) et Q
                 = packet_frame (if truthy st then st else et) et P"
    from a have q: "\<forall>b \<in> set Q. is_byte b" ..
    from a have e: "packet_frame (if truthy st then st else et) et Q
                      = packet_frame (if truthy st then st else et) et P" ..
    show "Q = P"
      by (rule packet_frame_inj [OF q assms(2) e])
  qed
next
  show "decode_step truthy (\<lparr>escape = True, buffer = buf, frame_start_time = t\<rparr>, out)
          (0xDC, bs, be)
        = (\<lparr>escape = False, buffer = buf @ [0xC0], frame_start_time = started t bs\<rparr>, out)"
    using decode_step_ESC_END [of truthy buf t out bs be] by (simp add: tokens)
next
  show "decode_step truthy (\<lparr>escape = True, buffer = buf, frame_start_time = t\<rparr>, out)
          (0xDD, bs, be)
        = (\<lparr>escape = False, buffer = buf @ [0xDB], frame_start_time = started t bs\<rparr>, out)"
    using decode_step_ESC_ESC [of truthy buf t out bs be] by (simp add: tokens)
qed

theorem round_trip_escaped_witness:
  "decode (\<lambda>t. t \<noteq> 0) init_state
     (data_frame (4::nat) 9 [0xC0, 0x01, 0xDB, 0xDC, 0xDB, 0xDD, 0x02, 0xC0])
     = (Some [\<lparr>af_type = ''slip_packet'', af_start_time = 4, af_end_time = 9,
               af_data = [''payload_hex'' \<mapsto> PStr ''01 C0 DB 02'',
                          ''length'' \<mapsto> PInt 4]\<rparr>],
        init_state)"
  using round_trip_escaped [of "[0x01, 0xC0, 0xDB, 0x02]" "\<lambda>t. t \<noteq> 0" "4::nat" 9,
      THEN conjunct1]
  by (simp add: END_def is_byte_def packet_frame_def format_02X_def hex_digit_def)

text \<open>
  C6. A chunk that holds several complete frames back to back, \<open>END\<close> and then each
  non-empty payload (encoded) followed by \<open>END\<close>, gives in one call the list of their
  \<open>slip_packet\<close> frames in the order of the chunk; for \<open>END,0xAA,END,0xBB,END\<close> the
  payloads \<open>[0xAA]\<close> and then \<open>[0xBB]\<close>.
\<close>

theorem multi_packet_chunk:
  assumes "ps \<noteq> []" and "\<forall>p \<in> set ps. p \<noteq> [] \<and> (\<forall>b \<in> set p. is_byte b)"
  shows "decode truthy init_state
           (data_frame st et (END # concat (map (\<lambda>p. slip_encode_spec p @ [END]) ps)))
         = (Some (map (packet_frame (if truthy st then st else et) et) ps), init_state)
         \<and> decode truthy init_state (data_frame st et [0xC0, 0xAA, 0xC0, 0xBB, 0xC0])
         = (Some [packet_frame (if truthy st then st else et) et [0xAA],
                  packet_frame (if truthy st then st else et) et [0xBB]], init_state)"
proof
  show "decode truthy init_state
           (data_frame st et (END # concat (map (\<lambda>p. slip_encode_spec p @ [END]) ps)))
         = (Some (map (packet_frame (if truthy st then st else et) et) ps), init_state)"
    using decode_encoded_frames [OF assms(2), of truthy st et] assms(1) by simp
next
  have "\<forall>p \<in> set [[0xAA], [0xBB]]. p \<noteq> [] \<and> (\<forall>b \<in> set p. is_byte b)"
    by (simp add: is_byte_def)
  from decode_encoded_frames [OF this, of truthy st et]
  show "decode truthy init_state (data_frame st et [0xC0, 0xAA, 0xC0, 0xBB, 0xC0])
         = (Some [packet_frame (if truthy st then st else et) et [0xAA],
                  packet_frame (if truthy st then st else et) et [0xBB]], init_state)"
    by (simp add: tokens)
qed

theorem multi_packet_chunk_witness:
  "decode (\<lambda>t. t \<noteq> 0) init_state
     (data_frame (0::nat) 9 [0xC0, 0x0A, 0xC0, 0xDB, 0xDC, 0x0B, 0xC0])
     = (Some [\<lparr>af_type = ''slip_packet'', af_start_time = 9, af_end_time = 9,
               af_data = [''payload_hex'' \<mapsto> PStr ''0A'', ''length'' \<mapsto> PInt 1]\<rparr>,
              \<lparr>af_type = ''slip_packet'', af_start_time = 9, af_end_time = 9,
               af_data = [''payload_hex'' \<mapsto> PStr ''C0 0B'', ''length'' \<mapsto> PInt 2]\<rparr>],
        init_state)"
  using multi_packet_chunk [of "[[0x0A], [0xC0, 0x0B]]" "\<lambda>t. t \<noteq> 0" "0::nat" 9,
      THEN conjunct1]
  by (simp add: END_def is_byte_def packet_frame_def format_02X_def hex_digit_def)

text \<open>
  C3. A byte \<open>b\<close> other than \<open>0xDC\<close> and \<open>0xDD\<close> consumed in the escape state appends
  exactly one \<open>slip_error\<close> frame to the output, with the message
  \<open>Invalid escape sequence after 0xDB\<close> and \<open>byte\<close> equal to \<open>b\<close>, and leaves the
  initial state; processing goes on, and a well-formed frame that follows in the same
  call is decoded as from the initial state.
\<close>

theorem invalid_escape_error:
  assumes "escape s" and "b \<noteq> 0xDC" and "b \<noteq> 0xDD"
    and "P \<noteq> []" and "\<forall>x \<in> set P. is_byte x"
  shows "decode_step truthy (s, out) (b, bs, be)
         = (init_state,
            out @ [\<lparr>af_type = ''slip_error'',
                    af_start_time =
                      (case frame_start_time s of
                         Some t \<Rightarrow> if truthy t then t else be
                       | None \<Rightarrow> if b \<noteq> END \<and> truthy bs then bs else be),
                    af_end_time = be,
                    af_data = [''message'' \<mapsto> PStr ''Invalid escape sequence after 0xDB'',
                               ''byte'' \<mapsto> PInt b]\<rparr>])
         \<and> decode truthy s (data_frame bs be (b # END # slip_encode_spec P @ [END]))
         = (Some [error_frame
                    (case frame_start_time s of
                       Some t \<Rightarrow> if truthy t then t else be
                     | None \<Rightarrow> if b \<noteq> END \<and> truthy bs then bs else be) be b,
                  packet_frame (if truthy bs then bs else be) be P],
            init_state)"
proof
  have ne: "b \<noteq> ESC_END" "b \<noteq> ESC_ESC"
    using assms(2,3) by (simp_all add: tokens)
  show "decode_step truthy (s, out) (b, bs, be)
         = (init_state,
            out @ [\<lparr>af_type = ''slip_error'',
                    af_start_time =
                      (case frame_start_time s of
                         Some t \<Rightarrow> if truthy t then t else be
                       | None \<Rightarrow> if b \<noteq> END \<and> truthy bs then bs else be),
                    af_end_time = be,
                    af_data = [''message'' \<mapsto> PStr ''Invalid escape sequence after 0xDB'',
                               ''byte'' \<mapsto> PInt b]\<rparr>])"
    using decode_step_invalid_escape [OF assms(1) ne, of truthy out bs be]
    by (simp add: error_frame_def)
  have "foldl (decode_step truthy) (s, [])
          (map (\<lambda>x. (x, bs, be)) (b # END # slip_encode_spec P @ [END]))
        = foldl (decode_step truthy) (decode_step truthy (s, []) (b, bs, be))
            (map (\<lambda>x. (x, bs, be)) (END # slip_encode_spec P @ [END]))"
    by simp
  also have "\<dots> = (init_state,
      [error_frame
         (case frame_start_time s of
            Some t \<Rightarrow> if truthy t then t else be
          | None \<Rightarrow> if b \<noteq> END \<and> truthy bs then bs else be) be b,
       packet_frame (if truthy bs then bs else be) be P])"
    unfolding decode_step_invalid_escape [OF assms(1) ne]
      decode_encoded_frame_from_init [OF assms(4,5)]
    by simp
  finally show "decode truthy s (data_frame bs be (b # END # slip_encode_spec P @ [END]))
         = (Some [error_frame
                    (case frame_start_time s of
                       Some t \<Rightarrow> if truthy t then t else be
                     | None \<Rightarrow> if b \<noteq> END \<and> truthy bs then bs else be) be b,
                  packet_frame (if truthy bs then bs else be) be P],
            init_state)"
    by (simp add: decode_data_frame)
qed

theorem invalid_escape_error_witness:
  "decode (\<lambda>t. t \<noteq> 0) \<lparr>escape = True, buffer = [1, 2], frame_start_time = Some 3\<rparr>
     (data_frame (4::nat) 9 [0x55, 0xC0, 0x07, 0xC0])
     = (Some [\<lparr>af_type = ''slip_error'', af_start_time = 3, af_end_time = 9,
               af_data = [''message'' \<mapsto> PStr ''Invalid escape sequence after 0xDB'',
                          ''byte'' \<mapsto> PInt 0x55]\<rparr>,
              \<lparr>af_type = ''slip_packet'', af_start_time = 4, af_end_time = 9,
               af_data = [''payload_hex'' \<mapsto> PStr ''07'', ''length'' \<mapsto> PInt 1]\<rparr>],
        init_state)"
  using invalid_escape_error
    [of "\<lparr>escape = True, buffer = [1, 2], frame_start_time = Some 3\<rparr>" "0x55" "[0x07]"
        "\<lambda>t. t \<noteq> 0" "[]" "4::nat" 9, THEN conjunct2]
  by (simp add: END_def is_byte_def packet_frame_def error_frame_def format_02X_def
      hex_digit_def)

text \<open>
  C4. Bytes passed in any number of consecutive \<open>decode\<close> calls give the same events, in
  the same order, and leave the same instance as the same bytes passed in one call: the
  instance carries \<open>escape\<close>, \<open>buffer\<close> and \<open>frame_start_time\<close> from call to call. The
  source gives every byte the times of its frame, so the frames compared have the times
  \<open>st\<close> and \<open>et\<close>.
\<close>

theorem chunk_boundary_independence:
  "decode_calls truthy s (map (data_frame st et) chunks)
     = (events (fst (decode truthy s (data_frame st et (concat chunks)))),
        snd (decode truthy s (data_frame st et (concat chunks))))
   \<and> map frame_content (fst (decode_calls truthy s (map timed_frame timed_chunks)))
     = map frame_content
         (events (fst (decode truthy s
            (data_frame st et (concat (map (\<lambda>c. snd (snd c)) timed_chunks))))))
   \<and> escape (snd (decode_calls truthy s (map timed_frame timed_chunks)))
     = escape (snd (decode truthy s
         (data_frame st et (concat (map (\<lambda>c. snd (snd c)) timed_chunks)))))
   \<and> buffer (snd (decode_calls truthy s (map timed_frame timed_chunks)))
     = buffer (snd (decode truthy s
         (data_frame st et (concat (map (\<lambda>c. snd (snd c)) timed_chunks)))))"
proof -
  obtain out s' where a: "decode_calls truthy s (map (data_frame st et) chunks) = (out, s')"
    by (cases "decode_calls truthy s (map (data_frame st et) chunks)")
  obtain r s'' where b: "decode truthy s (data_frame st et (concat chunks)) = (r, s'')"
    by (cases "decode truthy s (data_frame st et (concat chunks))")
  have "(s', out) = (s'', events r)"
    using decode_calls_data_frames [OF a] decode_data_frame_run [OF b] by simp
  then have first: "decode_calls truthy s (map (data_frame st et) chunks)
     = (events (fst (decode truthy s (data_frame st et (concat chunks)))),
        snd (decode truthy s (data_frame st et (concat chunks))))"
    using a b by simp
  let ?evs = "concat (map (\<lambda>(st, et, bs). map (\<lambda>b. (b, st, et)) bs) timed_chunks)"
  let ?bs = "concat (map (\<lambda>c. snd (snd c)) timed_chunks)"
  obtain tout ts where c: "decode_calls truthy s (map timed_frame timed_chunks) = (tout, ts)"
    by (cases "decode_calls truthy s (map timed_frame timed_chunks)")
  obtain r1 s1 where d: "decode truthy s (data_frame st et ?bs) = (r1, s1)"
    by (cases "decode truthy s (data_frame st et ?bs)")
  have l: "foldl (decode_step truthy) (s, []) ?evs = (ts, tout)"
    by (rule decode_calls_timed_frames [OF c])
  have r: "foldl (decode_step truthy) (s, []) (map (\<lambda>b. (b, st, et)) ?bs) = (s1, events r1)"
    by (rule decode_data_frame_run [OF d])
  have same: "map fst ?evs = map fst (map (\<lambda>b. (b, st, et)) ?bs)"
    by (simp add: bytes_of_timed comp_def)
  have "escape ts = escape s1 \<and> buffer ts = buffer s1
          \<and> map frame_content tout = map frame_content (events r1)"
    using foldl_decode_step_content [where s = s and s' = s and truthy = truthy,
        OF same refl refl] l r
    by simp
  then show ?thesis
    using first c d by simp
qed

theorem chunk_boundary_independence_witness:
  "decode_calls (\<lambda>t. t \<noteq> 0) init_state
     [data_frame (4::nat) 9 [0xC0, 0x01], data_frame 4 9 [0x02, 0xC0]]
     = ([\<lparr>af_type = ''slip_packet'', af_start_time = 4, af_end_time = 9,
          af_data = [''payload_hex'' \<mapsto> PStr ''01 02'', ''length'' \<mapsto> PInt 2]\<rparr>],
        init_state)"
proof -
  have "\<forall>p \<in> set [[0x01, 0x02]]. p \<noteq> [] \<and> (\<forall>b \<in> set p. is_byte b)"
    by (simp add: is_byte_def)
  from decode_encoded_frames [OF this, of "\<lambda>t. t \<noteq> 0" "4::nat" 9]
  have "decode (\<lambda>t. t \<noteq> 0) init_state (data_frame (4::nat) 9 [0xC0, 0x01, 0x02, 0xC0])
          = (Some [packet_frame 4 9 [0x01, 0x02]], init_state)"
    by (simp add: tokens)
  then show ?thesis
    using chunk_boundary_independence
      [of "\<lambda>t. t \<noteq> 0" init_state "4::nat" 9 "[[0xC0, 0x01], [0x02, 0xC0]]",
        THEN conjunct1]
    by (simp add: events_def packet_frame_def format_02X_def hex_digit_def)
qed

text \<open>
  C10. In every state reached from the initial state by any sequence of \<open>decode\<close> calls,
  a pending escape has a packet start time: \<open>frame_start_time\<close> is some \<open>t\<close>. So the
  error frame for an invalid continuation consumed there starts at \<open>t\<close> (at the end time
  of the byte when the host's time \<open>t\<close> is falsy, as the source's conditional says).
\<close>

theorem escape_implies_start_time:
  assumes "snd (decode_calls truthy init_state frames) = s" and "escape s"
  shows "\<exists>t. frame_start_time s = Some t \<and>
           (\<forall>b bs be out. b \<noteq> 0xDC \<and> b \<noteq> 0xDD \<longrightarrow>
              decode_step truthy (s, out) (b, bs, be)
                = (init_state, out @ [error_frame (if truthy t then t else be) be b]))"
proof -
  have "escape_has_start (init_state :: 't Hla)"
    by (simp add: escape_has_start_def init_state_def)
  then have "escape_has_start s"
    using decode_calls_escape_has_start [of init_state truthy frames] assms(1) by simp
  then obtain t where t: "frame_start_time s = Some t"
    using assms(2) by (auto simp: escape_has_start_def)
  have "decode_step truthy (s, out) (b, bs, be)
          = (init_state, out @ [error_frame (if truthy t then t else be) be b])"
    if "b \<noteq> 0xDC \<and> b \<noteq> 0xDD" for b bs be out
  proof -
    have ne: "b \<noteq> ESC_END" "b \<noteq> ESC_ESC"
      using that by (simp_all add: tokens)
    show ?thesis
      using decode_step_invalid_escape [OF assms(2) ne, of truthy out bs be] t by simp
  qed
  then show ?thesis
    using t by blast
qed

theorem escape_implies_start_time_witness:
  "frame_start_time \<lparr>escape = True, buffer = [1], frame_start_time = Some (4::nat)\<rparr> = Some 4
   \<and> decode_step (\<lambda>t. t \<noteq> 0)
       (\<lparr>escape = True, buffer = [1], frame_start_time = Some (4::nat)\<rparr>, []) (0x55, 6, 7)
     = (init_state,
        [\<lparr>af_type = ''slip_error'', af_start_time = 4, af_end_time = 7,
          af_data = [''message'' \<mapsto> PStr ''Invalid escape sequence after 0xDB'',
                     ''byte'' \<mapsto> PInt 0x55]\<rparr>])"
proof -
  have run: "snd (decode_calls (\<lambda>t. t \<noteq> 0) init_state
               [data_frame (4::nat) 5 [0xC0, 0x01, 0xDB]])
             = \<lparr>escape = True, buffer = [1], frame_start_time = Some 4\<rparr>"
    by (simp add: decode_data_frame decode_step_def emit_packet_frame_def init_state_def
        Let_def tokens)
  have esc: "escape \<lparr>escape = True, buffer = [1], frame_start_time = Some (4::nat)\<rparr>"
    by simp
  from escape_implies_start_time [OF run esc] show ?thesis
    by (simp add: error_frame_def)
qed

text \<open>
  C8. A \<open>slip_packet\<close> frame is appended only by a step that consumes \<open>END\<close> outside the
  escape state with a non-empty buffer. A chunk without \<open>END\<close> therefore gives no
  \<open>slip_packet\<close>, from any state. When the stream stops inside a packet (\<open>END\<close> and then
  the encoded bytes of \<open>p\<close>, no closing \<open>END\<close>), the call returns no event at all and the
  bytes of \<open>p\<close> are held in \<open>buffer\<close>.
\<close>

theorem packet_only_on_END:
  "(f \<in> set (snd (decode_step truthy (s, []) (b, bs, be))) \<and> af_type f = ''slip_packet''
      \<longrightarrow> b = 0xC0 \<and> \<not> escape s \<and> buffer s \<noteq> [])
   \<and> (0xC0 \<notin> set xs \<longrightarrow>
        (\<forall>g \<in> set (events (fst (decode truthy s (data_frame st et xs)))).
           af_type g \<noteq> ''slip_packet''))
   \<and> ((\<forall>x \<in> set p. is_byte x) \<longrightarrow>
        decode truthy init_state (data_frame st et (0xC0 # slip_encode_spec p))
          = (None, \<lparr>escape = False, buffer = p,
                    frame_start_time = (if p = [] then None else Some st)\<rparr>))"
proof (intro conjI impI)
  assume a: "f \<in> set (snd (decode_step truthy (s, []) (b, bs, be))) \<and> af_type f = ''slip_packet''"
  then have "af_type f \<noteq> ''slip_error''" by simp
  then have "b = END \<and> \<not> escape s \<and> buffer s \<noteq> []"
    using decode_step_new_frame [of f truthy s b bs be] a by blast
  then show "b = 0xC0" "\<not> escape s" "buffer s \<noteq> []"
    by (simp_all add: END_def)
next
  assume "0xC0 \<notin> set xs"
  then have n: "END \<notin> set xs" by (simp add: END_def)
  show "\<forall>g \<in> set (events (fst (decode truthy s (data_frame st et xs)))).
          af_type g \<noteq> ''slip_packet''"
  proof
    fix g
    assume "g \<in> set (events (fst (decode truthy s (data_frame st et xs))))"
    from decode_no_END_no_packet [OF n this] show "af_type g \<noteq> ''slip_packet''"
      by simp
  qed
next
  assume "\<forall>x \<in> set p. is_byte x"
  from decode_pending_payload [OF this, of truthy st et]
  show "decode truthy init_state (data_frame st et (0xC0 # slip_encode_spec p))
          = (None, \<lparr>escape = False, buffer = p,
                    frame_start_time = (if p = [] then None else Some st)\<rparr>)"
    by (simp add: END_def)
qed

theorem packet_only_on_END_witness:
  "packet_frame (4::nat) 9 [0x01]
     \<in> set (snd (decode_step (\<lambda>t. t \<noteq> 0)
                 (\<lparr>escape = False, buffer = [0x01], frame_start_time = Some 4\<rparr>, [])
                 (0xC0, 4, 9)))
   \<and> 0xC0 \<notin> set [0x01, 0xDB, 0x55 :: int]
   \<and> events (fst (decode (\<lambda>t. t \<noteq> 0) init_state (data_frame (4::nat) 9 [0x01, 0xDB, 0x55])))
     = [error_frame 4 9 0x55]
   \<and> decode (\<lambda>t. t \<noteq> 0) init_state (data_frame (4::nat) 9 [0xC0, 0x01, 0xDB, 0xDC, 0x02])
     = (None, \<lparr>escape = False, buffer = [0x01, 0xC0, 0x02], frame_start_time = Some 4\<rparr>)"
proof (intro conjI)
  show "packet_frame (4::nat) 9 [0x01]
     \<in> set (snd (decode_step (\<lambda>t. t \<noteq> 0)
                 (\<lparr>escape = False, buffer = [0x01], frame_start_time = Some 4\<rparr>, [])
                 (0xC0, 4, 9)))"
    using decode_step_END_packet [of "[0x01]" "\<lambda>t. t \<noteq> 0" "Some (4::nat)" "[]" 4 9]
    by (simp add: END_def)
  show "0xC0 \<notin> set [0x01, 0xDB, 0x55 :: int]"
    by simp
  show "events (fst (decode (\<lambda>t. t \<noteq> 0) init_state
                  (data_frame (4::nat) 9 [0x01, 0xDB, 0x55])))
          = [error_frame 4 9 0x55]"
    by (simp add: decode_data_frame events_def decode_step_def emit_error_frame_def
        span_start_def error_frame_def init_state_def Let_def tokens)
  show "decode (\<lambda>t. t \<noteq> 0) init_state
          (data_frame (4::nat) 9 [0xC0, 0x01, 0xDB, 0xDC, 0x02])
        = (None, \<lparr>escape = False, buffer = [0x01, 0xC0, 0x02], frame_start_time = Some 4\<rparr>)"
    using packet_only_on_END
      [where truthy = "\<lambda>t. t \<noteq> 0" and st = "4::nat" and et = 9
         and p = "[0x01, 0xC0, 0x02]", THEN conjunct2, THEN conjunct2]
    by (simp add: is_byte_def)
qed

text \<open>
  C5, as amended. Every \<open>slip_packet\<close> frame that \<open>decode\<close> returns has exactly the two
  data fields \<open>payload_hex\<close> and \<open>length\<close>: \<open>payload_hex\<close> is the string of the decoded
  bytes, each as two upper-case hexadecimal digits, joined by single spaces, and
  \<open>length\<close> is the number of those bytes. The bytes are the buffer at the \<open>END\<close> that
  closes the packet. There is no field \<open>payload\<close>.
\<close>

theorem emitted_packet_fields:
  "(f \<in> set (events (fst (decode truthy s frame))) \<and> af_type f = ''slip_packet'' \<longrightarrow>
      (\<exists>payload. payload \<noteq> []
         \<and> af_data f = [''payload_hex'' \<mapsto> PStr (join '' '' (map format_02X payload)),
                        ''length'' \<mapsto> PInt (int (length payload))])
      \<and> dom (af_data f) = {''payload_hex'', ''length''})
   \<and> (g \<in> set (snd (decode_step truthy (s, []) (b, bs, be))) \<and> af_type g = ''slip_packet''
       \<longrightarrow> af_data g = [''payload_hex'' \<mapsto> PStr (join '' '' (map format_02X (buffer s))),
                         ''length'' \<mapsto> PInt (int (length (buffer s)))])"
proof (intro conjI impI)
  assume a: "g \<in> set (snd (decode_step truthy (s, []) (b, bs, be))) \<and> af_type g = ''slip_packet''"
  then have "af_type g \<noteq> ''slip_error''" by simp
  then show "af_data g = [''payload_hex'' \<mapsto> PStr (join '' '' (map format_02X (buffer s))),
                         ''length'' \<mapsto> PInt (int (length (buffer s)))]"
    using decode_step_new_frame [of g truthy s b bs be] a by blast
next
  assume a: "f \<in> set (events (fst (decode truthy s frame))) \<and> af_type f = ''slip_packet''"
  let ?Q = "\<lambda>f. af_type f = ''slip_packet'' \<longrightarrow>
      (\<exists>payload. payload \<noteq> []
         \<and> af_data f = [''payload_hex'' \<mapsto> PStr (join '' '' (map format_02X payload)),
                        ''length'' \<mapsto> PInt (int (length payload))])"
  have mem: "f \<in> set (snd (foldl (decode_step truthy) (s, []) (byte_spans frame)))"
    using a by (simp add: events_decode split: if_splits)
  have "?Q f"
  proof (rule foldl_decode_step_frames [OF _ mem])
    fix s' :: "'a Hla" and ev :: "int \<times> 'a \<times> 'a" and h
    assume h: "h \<in> set (snd (decode_step truthy (s', []) ev))"
    obtain b' st' et' where ev: "ev = (b', st', et')" by (cases ev)
    show "?Q h"
    proof
      assume t: "af_type h = ''slip_packet''"
      then have "af_type h \<noteq> ''slip_error''" by simp
      then have "buffer s' \<noteq> [] \<and>
          af_data h = [''payload_hex'' \<mapsto> PStr (join '' '' (map format_02X (buffer s'))),
                       ''length'' \<mapsto> PInt (int (length (buffer s')))]"
        using decode_step_new_frame [of h truthy s' b' st' et'] h ev by blast
      then show "\<exists>payload. payload \<noteq> []
         \<and> af_data h = [''payload_hex'' \<mapsto> PStr (join '' '' (map format_02X payload)),
                        ''length'' \<mapsto> PInt (int (length payload))]"
        by blast
    qed
  qed
  then obtain payload where p: "payload \<noteq> []"
      "af_data f = [''payload_hex'' \<mapsto> PStr (join '' '' (map format_02X payload)),
                    ''length'' \<mapsto> PInt (int (length payload))]"
    using a by blast
  show "\<exists>payload. payload \<noteq> []
         \<and> af_data f = [''payload_hex'' \<mapsto> PStr (join '' '' (map format_02X payload)),
                        ''length'' \<mapsto> PInt (int (length payload))]"
    using p by blast
  show "dom (af_data f) = {''payload_hex'', ''length''}"
    unfolding p(2) by auto
qed

theorem emitted_packet_fields_witness:
  "packet_frame (4::nat) 9 [0xAA]
     \<in> set (events (fst (decode (\<lambda>t. t \<noteq> 0) init_state
                           (data_frame (4::nat) 9 [0xC0, 0xAA, 0xC0]))))
   \<and> af_type (packet_frame (4::nat) 9 [0xAA]) = ''slip_packet''
   \<and> dom (af_data (packet_frame (4::nat) 9 [0xAA])) = {''payload_hex'', ''length''}
   \<and> af_data (packet_frame (4::nat) 9 [0xAA]) ''payload_hex'' = Some (PStr ''AA'')
   \<and> af_data (packet_frame (4::nat) 9 [0xAA]) ''length'' = Some (PInt 1)"
proof -
  have "\<forall>p \<in> set [[0xAA]]. p \<noteq> [] \<and> (\<forall>b \<in> set p. is_byte b)"
    by (simp add: is_byte_def)
  from decode_encoded_frames [OF this, of "\<lambda>t. t \<noteq> 0" "4::nat" 9]
  have d: "decode (\<lambda>t. t \<noteq> 0) init_state (data_frame (4::nat) 9 [0xC0, 0xAA, 0xC0])
          = (Some [packet_frame 4 9 [0xAA]], init_state)"
    by (simp add: tokens)
  have m: "packet_frame (4::nat) 9 [0xAA]
     \<in> set (events (fst (decode (\<lambda>t. t \<noteq> 0) init_state
                           (data_frame (4::nat) 9 [0xC0, 0xAA, 0xC0]))))"
    unfolding d by (simp add: events_def)
  have t: "af_type (packet_frame (4::nat) 9 [0xAA]) = ''slip_packet''"
    by (simp add: packet_frame_def)
  have "dom (af_data (packet_frame (4::nat) 9 [0xAA])) = {''payload_hex'', ''length''}"
    using emitted_packet_fields
      [where f = "packet_frame (4::nat) 9 [0xAA]" and truthy = "\<lambda>t. t \<noteq> 0"
         and s = init_state and frame = "data_frame (4::nat) 9 [0xC0, 0xAA, 0xC0]",
        THEN conjunct1] m t
    by blast
  then show ?thesis
    using m t by (simp add: packet_frame_def format_02X_def hex_digit_def)
qed

theorem emitted_packet_fields_counterexample:
  "map (\<lambda>f. (af_type f, af_data f ''payload''))
     (events (fst (decode (\<lambda>t. True) init_state (data_frame (0::nat) 1 [0xC0, 0xAA, 0xC0]))))
   = [(''slip_packet'', None)]"
proof -
  have "\<forall>p \<in> set [[0xAA]]. p \<noteq> [] \<and> (\<forall>b \<in> set p. is_byte b)"
    by (simp add: is_byte_def)
  from decode_encoded_frames [OF this, of "\<lambda>t. True" "0::nat" 1]
  have "decode (\<lambda>t. True) init_state (data_frame (0::nat) 1 [0xC0, 0xAA, 0xC0])
          = (Some [packet_frame 0 1 [0xAA]], init_state)"
    by (simp add: tokens)
  then show ?thesis
    by (simp add: events_def packet_frame_def)
qed

end
